theory Spec2Isabelle
  imports Main "HOL-Library.Sublist"
begin

section \<open>Python primitives used by the s4 endpoints\<close>

text \<open>
  The endpoints of \<^verbatim>\<open>bdi_api/s4/exercise.py\<close> use a handful of Python string and list
  operations. Each is written out here as the language defines it, on \<open>string\<close>
  (a list of characters) and on lists.
\<close>

text \<open>The decimal digit of a number below ten.\<close>

definition digit_char :: "nat \<Rightarrow> char" where
  "digit_char d = ''0123456789'' ! d"

text \<open>\<^verbatim>\<open>str(n)\<close> for a non-negative integer.\<close>

function str_nat :: "nat \<Rightarrow> string" where
  "str_nat n = (if n < 10 then [digit_char n] else str_nat (n div 10) @ [digit_char (n mod 10)])"
  by pat_completeness auto
termination
  by (relation "measure id") auto

declare str_nat.simps [simp del]

text \<open>The format specification \<^verbatim>\<open>{n:02d}\<close>: the decimal digits, filled with zeros on the
  left up to a width of two.\<close>

definition fmt_02d :: "nat \<Rightarrow> string" where
  "fmt_02d n = replicate (2 - length (str_nat n)) CHR ''0'' @ str_nat n"

text \<open>\<^verbatim>\<open>range(start, stop, step)\<close> for a positive step.\<close>

function range_step :: "nat \<Rightarrow> nat \<Rightarrow> nat \<Rightarrow> nat list" where
  "range_step start stop step =
     (if start < stop \<and> 0 < step then start # range_step (start + step) stop step else [])"
  by pat_completeness auto
termination
  by (relation "measure (\<lambda>(start, stop, step). stop - start)") auto

declare range_step.simps [simp del]

text \<open>\<^verbatim>\<open>s.startswith(p)\<close>.\<close>

definition startswith :: "string \<Rightarrow> string \<Rightarrow> bool" where
  "startswith s p = prefix p s"

text \<open>\<^verbatim>\<open>sub in s\<close> on strings: \<open>sub\<close> occurs in \<open>s\<close> as a contiguous block.\<close>

fun str_contains :: "string \<Rightarrow> string \<Rightarrow> bool" where
  "str_contains sub [] = (sub = [])"
| "str_contains sub (c # cs) = (prefix sub (c # cs) \<or> str_contains sub cs)"

text \<open>\<^verbatim>\<open>s.rstrip(c)\<close> for a single character: every trailing \<open>c\<close> is removed.\<close>

definition rstrip :: "char \<Rightarrow> string \<Rightarrow> string" where
  "rstrip c s = rev (dropWhile (\<lambda>x. x = c) (rev s))"

text \<open>\<^verbatim>\<open>s.split(c)\<close> for a single-character separator. The result is never empty:
  \<^verbatim>\<open>"".split("/")\<close> is \<^verbatim>\<open>[""]\<close>.\<close>

fun split_sep :: "char \<Rightarrow> string \<Rightarrow> string list" where
  "split_sep c [] = [[]]"
| "split_sep c (x # xs) =
     (if x = c then [] # split_sep c xs
      else (case split_sep c xs of
              [] \<Rightarrow> [[x]]
            | w # ws \<Rightarrow> (x # w) # ws))"

text \<open>The slice \<^verbatim>\<open>xs[:n]\<close>. A negative bound counts from the end of the list, and a bound
  beyond either end is clamped.\<close>

definition slice_to :: "'a list \<Rightarrow> int \<Rightarrow> 'a list" where
  "slice_to xs n =
     (if n < 0 then take (nat (int (length xs) + n)) xs else take (nat n) xs)"

text \<open>\<^verbatim>\<open>os.path.basename\<close> and \<^verbatim>\<open>os.path.join\<close> of \<^verbatim>\<open>posixpath\<close>: the base name is what
  follows the last slash; joining starts afresh at a component that begins with a slash
  and otherwise inserts one slash unless the path so far is empty or ends in one.\<close>

definition basename :: "string \<Rightarrow> string" where
  "basename p = rev (takeWhile (\<lambda>x. x \<noteq> CHR ''/'') (rev p))"

definition join_step :: "string \<Rightarrow> string \<Rightarrow> string" where
  "join_step path b =
     (if startswith b ''/'' then b
      else if path = [] \<or> last path = CHR ''/'' then path @ b
      else path @ ''/'' @ b)"

definition path_join :: "string \<Rightarrow> string list \<Rightarrow> string" where
  "path_join a ps = foldl join_step a ps"

section \<open>The remote source and the content store\<close>

text \<open>
  \<^verbatim>\<open>requests.get\<close> either returns a response or raises; the code reads the fields
  \<^verbatim>\<open>status_code\<close>, \<^verbatim>\<open>text\<close> (here \<open>text_field\<close>) and \<^verbatim>\<open>raw\<close> of a response. The
  remote source is a function from URLs to such results, so that the same URL gets the
  same answer throughout a run.
  The parsed page is the list of its \<^verbatim>\<open>a\<close> tags in document order, as
  \<^verbatim>\<open>soup.find_all("a")\<close> returns it; a tag is its attribute dictionary. The parser
  itself is a parameter of the model. The bucket is a map from object keys to bodies.
  Calls of the storage client are modelled as succeeding; the code has no handler around
  them.
\<close>

datatype exn = RequestException

record 'b response =
  status_code :: int
  text_field :: string
  raw :: 'b

type_synonym tag = "string \<rightharpoonup> string"

record 'b env =
  source_url :: string
  http_get :: "string \<Rightarrow> exn + 'b response"
  find_all_a :: "string \<Rightarrow> tag list"

text \<open>What a run does that can be seen from outside: the HTTP requests it issues, the
  message of the fallback branch, the uploads, and the message of a failed download. The
  other messages (the banner, the totals and the progress line after every fiftieth
  upload) are left out; none of them changes what the run does.\<close>

datatype event =
    Http_Get string
  | Fallback_Engaged
  | Upload string
  | Failed string int

record 'b dl_state =
  bucket :: "string \<rightharpoonup> 'b"
  downloaded_count :: nat
  trace :: "event list"

section \<open>The download endpoint\<close>

definition base_url :: "'b env \<Rightarrow> string" where
  "base_url env = rstrip CHR ''/'' (source_url env) @ ''/2023/11/01/''"

definition s3_prefix_path :: string where
  "s3_prefix_path = ''raw/day=20231101/''"

text \<open>Line 55: the \<^verbatim>\<open>href\<close> of every \<^verbatim>\<open>a\<close> tag that has a non-empty one containing
  \<^verbatim>\<open>.json\<close>.\<close>

definition page_links :: "tag list \<Rightarrow> string list" where
  "page_links anchors =
     concat (map (\<lambda>a. case a ''href'' of
                         None \<Rightarrow> []
                       | Some h \<Rightarrow> if h \<noteq> [] \<and> str_contains ''.json'' h then [h] else [])
                 anchors)"

text \<open>Lines 61 to 64: the three nested loops of the fallback.\<close>

definition hhmmss_name :: "nat \<Rightarrow> nat \<Rightarrow> nat \<Rightarrow> string" where
  "hhmmss_name h m s = fmt_02d h @ fmt_02d m @ fmt_02d s @ ''Z.json.gz''"

definition fallback_names :: "string list" where
  "fallback_names =
     concat (map (\<lambda>h. concat (map (\<lambda>m. map (\<lambda>s. hhmmss_name h m s) (range_step 0 60 5))
                                  [0..<60]))
                 [0..<24])"

text \<open>Lines 55 to 64: the links of the page, or the generated names when there are none.\<close>

definition all_links :: "tag list \<Rightarrow> string list" where
  "all_links anchors =
     (let links = page_links anchors in if links = [] then fallback_names else links)"

text \<open>Lines 73, 74 and 79.\<close>

definition file_url :: "string \<Rightarrow> string \<Rightarrow> string" where
  "file_url base filename = (if startswith filename ''http'' then filename else base @ filename)"

definition s3_filename :: "string \<Rightarrow> string" where
  "s3_filename filename = last (split_sep CHR ''/'' filename)"

definition s3_key :: "string \<Rightarrow> string" where
  "s3_key filename = s3_prefix_path @ s3_filename filename"

text \<open>Lines 72 to 85: the loop over \<^verbatim>\<open>links_to_download\<close>. An exception of
  \<^verbatim>\<open>requests.get\<close> leaves the loop at once, with the state reached so far.\<close>

fun download_loop ::
  "'b env \<Rightarrow> string \<Rightarrow> string list \<Rightarrow> 'b dl_state \<Rightarrow> (exn + unit) \<times> 'b dl_state" where
  "download_loop env base [] st = (Inr (), st)"
| "download_loop env base (filename # rest) st =
     (let st1 = st\<lparr>trace := trace st @ [Http_Get (file_url base filename)]\<rparr> in
      case http_get env (file_url base filename) of
        Inl e \<Rightarrow> (Inl e, st1)
      | Inr file_response \<Rightarrow>
          if status_code file_response = 200 then
            download_loop env base rest
              (st1\<lparr>bucket := (bucket st1)(s3_key filename \<mapsto> raw file_response),
                   downloaded_count := downloaded_count st1 + 1,
                   trace := trace st1 @ [Upload (s3_key filename)]\<rparr>)
          else
            download_loop env base rest
              (st1\<lparr>trace := trace st1 @
                 [Failed (s3_filename filename) (status_code file_response)]\<rparr>))"

text \<open>The endpoint, lines 28 to 88. It returns \<^verbatim>\<open>"OK"\<close> or raises, and leaves the bucket
  as the loop left it.\<close>

definition download_data ::
  "'b env \<Rightarrow> int \<Rightarrow> (string \<rightharpoonup> 'b) \<Rightarrow> (exn + string) \<times> 'b dl_state" where
  "download_data env file_limit objs =
     (let st0 = \<lparr>bucket = objs, downloaded_count = 0, trace = [Http_Get (base_url env)]\<rparr> in
      case http_get env (base_url env) of
        Inl e \<Rightarrow> (Inl e, st0)
      | Inr response \<Rightarrow>
          (let anchors = find_all_a env (text_field response);
               st1 = (if page_links anchors = []
                      then st0\<lparr>trace := trace st0 @ [Fallback_Engaged]\<rparr> else st0);
               links_to_download = slice_to (all_links anchors) file_limit
           in case download_loop env (base_url env) links_to_download st1 of
                (Inl e, st) \<Rightarrow> (Inl e, st)
              | (Inr u, st) \<Rightarrow> (Inr ''OK'', st)))"

section \<open>The prepare endpoint\<close>

text \<open>A page of the listing is the value of its \<^verbatim>\<open>Contents\<close> entry, when it has one: the
  keys of the objects listed. The run is the list of the \<^verbatim>\<open>download_file\<close> calls it
  makes, each with the key and the local path.\<close>

type_synonym page = "string list option"

definition prepared_dir :: string where
  "prepared_dir = path_join ''data'' [''prepared'', ''day=20231101'']"

fun prepare_objects :: "string list \<Rightarrow> (string \<times> string) list" where
  "prepare_objects [] = []"
| "prepare_objects (obj_key # objs) =
     (if basename obj_key = [] then prepare_objects objs
      else (obj_key, path_join prepared_dir [basename obj_key]) # prepare_objects objs)"

fun prepare_pages :: "page list \<Rightarrow> (string \<times> string) list" where
  "prepare_pages [] = []"
| "prepare_pages (None # pages) = prepare_pages pages"
| "prepare_pages (Some objs # pages) = prepare_objects objs @ prepare_pages pages"

definition prepare_data :: "page list \<Rightarrow> string \<times> (string \<times> string) list" where
  "prepare_data pages = (''OK'', prepare_pages pages)"

section \<open>Reading a generated name back\<close>

text \<open>
  The naming convention of the source, \<^verbatim>\<open>HHMMSSZ.json.gz\<close>, as a recogniser and a
  decoder: six decimal digits followed by \<^verbatim>\<open>Z.json.gz\<close>, read as hour, minute and
  second. They state what the generated names are; the code does not use them.
\<close>

definition is_digit :: "char \<Rightarrow> bool" where
  "is_digit c = (c \<in> set ''0123456789'')"

definition digit_val :: "char \<Rightarrow> nat" where
  "digit_val c = of_char c - 48"

definition matches_pattern :: "string \<Rightarrow> bool" where
  "matches_pattern n = (length n = 15 \<and> list_all is_digit (take 6 n) \<and> drop 6 n = ''Z.json.gz'')"

definition num2 :: "string \<Rightarrow> nat" where
  "num2 ds = (case ds of [a, b] \<Rightarrow> 10 * digit_val a + digit_val b | _ \<Rightarrow> 0)"

definition hour_of :: "string \<Rightarrow> nat" where
  "hour_of n = num2 (take 2 n)"

definition minute_of :: "string \<Rightarrow> nat" where
  "minute_of n = num2 (take 2 (drop 2 n))"

definition second_of :: "string \<Rightarrow> nat" where
  "second_of n = num2 (take 2 (drop 4 n))"

definition seconds_of_day :: "string \<Rightarrow> nat" where
  "seconds_of_day n = 3600 * hour_of n + 60 * minute_of n + second_of n"

section \<open>Observations on a run\<close>

text \<open>
  Projections of the trace: the URLs requested, the keys uploaded, and the failures
  reported with their status codes, each in the order of the run.
\<close>

fun requests :: "event list \<Rightarrow> string list" where
  "requests [] = []"
| "requests (Http_Get u # es) = u # requests es"
| "requests (e # es) = requests es"

fun uploads :: "event list \<Rightarrow> string list" where
  "uploads [] = []"
| "uploads (Upload k # es) = k # uploads es"
| "uploads (e # es) = uploads es"

fun failures :: "event list \<Rightarrow> (string \<times> int) list" where
  "failures [] = []"
| "failures (Failed f s # es) = (f, s) # failures es"
| "failures (e # es) = failures es"

text \<open>
  What the remote source answers for one candidate name: the request raises; the response
  has status 200; or the response has another status, which the loop reports together with
  the file name.
\<close>

definition raises :: "'b env \<Rightarrow> string \<Rightarrow> string \<Rightarrow> bool" where
  "raises env base filename =
     (case http_get env (file_url base filename) of Inl e \<Rightarrow> True | Inr r \<Rightarrow> False)"

definition fetched_ok :: "'b env \<Rightarrow> string \<Rightarrow> string \<Rightarrow> bool" where
  "fetched_ok env base filename =
     (case http_get env (file_url base filename) of
        Inl e \<Rightarrow> False
      | Inr r \<Rightarrow> status_code r = 200)"

definition skipped :: "'b env \<Rightarrow> string \<Rightarrow> string \<Rightarrow> (string \<times> int) option" where
  "skipped env base filename =
     (case http_get env (file_url base filename) of
        Inl e \<Rightarrow> None
      | Inr r \<Rightarrow> if status_code r = 200 then None else Some (s3_filename filename, status_code r))"

text \<open>
  The candidates the loop gets to: every name up to and including the first one whose
  request raises. Without an exception these are all the names.
\<close>

fun attempted :: "'b env \<Rightarrow> string \<Rightarrow> string list \<Rightarrow> string list" where
  "attempted env base [] = []"
| "attempted env base (filename # rest) =
     (if raises env base filename then [filename] else filename # attempted env base rest)"

text \<open>
  The objects one pass over the names writes, as a map from keys to bodies; a later name
  with the same key overwrites an earlier one.
\<close>

fun stored :: "'b env \<Rightarrow> string \<Rightarrow> string list \<Rightarrow> (string \<rightharpoonup> 'b)" where
  "stored env base [] = Map.empty"
| "stored env base (filename # rest) =
     (case http_get env (file_url base filename) of
        Inl e \<Rightarrow> Map.empty
      | Inr r \<Rightarrow>
          if status_code r = 200 then [s3_key filename \<mapsto> raw r] ++ stored env base rest
          else stored env base rest)"

section \<open>The terms of the specification\<close>

text \<open>
  A qualifying link is an anchor whose hyperlink attribute has a value containing the
  file-type marker \<^verbatim>\<open>.json\<close>. A full URL is a name that begins with a scheme (a
  letter followed by letters, digits, \<^verbatim>\<open>+\<close>, \<^verbatim>\<open>-\<close> or \<^verbatim>\<open>.\<close>, in either case)
  and the separator \<^verbatim>\<open>://\<close>. The keys listed are those of all pages, in the order of
  the listing.
\<close>

definition qualifying :: "tag \<Rightarrow> bool" where
  "qualifying a = (case a ''href'' of None \<Rightarrow> False | Some h \<Rightarrow> sublist ''.json'' h)"

definition is_alpha :: "char \<Rightarrow> bool" where
  "is_alpha c = (c \<in> set ''abcdefghijklmnopqrstuvwxyzABCDEFGHIJKLMNOPQRSTUVWXYZ'')"

definition is_scheme_char :: "char \<Rightarrow> bool" where
  "is_scheme_char c = (is_alpha c \<or> c \<in> set ''0123456789+-.'')"

definition url_scheme :: "string \<Rightarrow> string" where
  "url_scheme s = takeWhile (\<lambda>c. c \<noteq> CHR '':'') s"

definition is_full_url :: "string \<Rightarrow> bool" where
  "is_full_url s =
     (url_scheme s \<noteq> [] \<and> is_alpha (hd (url_scheme s)) \<and>
      list_all is_scheme_char (url_scheme s) \<and>
      prefix ''://'' (drop (length (url_scheme s)) s))"

definition listed_keys :: "page list \<Rightarrow> string list" where
  "listed_keys pages = concat (map (\<lambda>p. case p of None \<Rightarrow> [] | Some objs \<Rightarrow> objs) pages)"

section \<open>Concrete remote sources\<close>

text \<open>
  Small environments on which the endpoint is evaluated: a listing page with the two links
  \<^verbatim>\<open>a.json.gz\<close> and \<^verbatim>\<open>b.json.gz\<close>, a listing page without any qualifying link, and
  three remote behaviours: every URL is served with status 200; the request for
  \<^verbatim>\<open>a.json.gz\<close> raises; the request for \<^verbatim>\<open>a.json.gz\<close> is answered with status 404.
\<close>

definition ok_response :: "unit response" where
  "ok_response = \<lparr>status_code = 200, text_field = [], raw = ()\<rparr>"

definition not_found :: "unit response" where
  "not_found = \<lparr>status_code = 404, text_field = [], raw = ()\<rparr>"

definition serve_all :: "string \<Rightarrow> exn + unit response" where
  "serve_all u = Inr ok_response"

definition serve_a_raising :: "string \<Rightarrow> exn + unit response" where
  "serve_a_raising u =
     (if u = ''http://src/2023/11/01/a.json.gz'' then Inl RequestException else Inr ok_response)"

definition serve_a_missing :: "string \<Rightarrow> exn + unit response" where
  "serve_a_missing u =
     (if u = ''http://src/2023/11/01/a.json.gz'' then Inr not_found else Inr ok_response)"

definition two_links_env :: "(string \<Rightarrow> exn + unit response) \<Rightarrow> unit env" where
  "two_links_env get =
     \<lparr>source_url = ''http://src/'', http_get = get,
      find_all_a = (\<lambda>t. [[''href'' \<mapsto> ''a.json.gz''], [''href'' \<mapsto> ''b.json.gz'']])\<rparr>"

definition no_links_env :: "unit env" where
  "no_links_env =
     \<lparr>source_url = ''http://src/'', http_get = serve_all,
      find_all_a = (\<lambda>t. [[''href'' \<mapsto> ''index.html''], Map.empty])\<rparr>"

section \<open>The fallback generator\<close>

lemma range_step_0_60_5: "range_step 0 60 5 = map (\<lambda>k. 5 * k) [0..<12]"
  by code_simp

lemma below_ten_cases:
  "d < 10 \<Longrightarrow> d = 0 \<or> d = 1 \<or> d = 2 \<or> d = 3 \<or> d = 4 \<or> d = 5 \<or> d = 6 \<or> d = 7 \<or> d = 8 \<or> d = (9::nat)"
  by arith

lemma is_digit_digit_char: "d < 10 \<Longrightarrow> is_digit (digit_char d)"
  using below_ten_cases[of d] by (auto simp: is_digit_def digit_char_def)

lemma digit_val_digit_char: "d < 10 \<Longrightarrow> digit_val (digit_char d) = d"
  using below_ten_cases[of d] by (auto simp: digit_val_def digit_char_def)

lemma fmt_02d_digits:
  assumes "n < 100"
  shows "fmt_02d n = [digit_char (n div 10), digit_char (n mod 10)]"
proof (cases "n < 10")
  case True
  then show ?thesis
    by (simp add: fmt_02d_def str_nat.simps digit_char_def)
next
  case False
  with assms show ?thesis
    by (simp add: fmt_02d_def str_nat.simps[of n] str_nat.simps[of "n div 10"])
qed

lemma concat_map_upt:
  "concat (map (\<lambda>a. map (g a) [0..<n]) [0..<m]) = map (\<lambda>i. g (i div n) (i mod n)) [0..<m * n]"
proof (induction m)
  case 0
  show ?case by simp
next
  case (Suc m)
  have "[0..<Suc m * n] = [0..<m * n] @ map (\<lambda>j. j + m * n) [0..<n]"
    using map_add_upt[of "m * n" n] upt_add_eq_append[of 0 "m * n" n] by (simp add: add.commute)
  moreover have "map (\<lambda>i. g (i div n) (i mod n)) (map (\<lambda>j. j + m * n) [0..<n]) = map (g m) [0..<n]"
    by (rule nth_equalityI) auto
  ultimately show ?case using Suc by simp
qed

lemma fallback_names_indexed:
  "fallback_names =
     map (\<lambda>i. hhmmss_name (i div 720) (i div 12 mod 60) (5 * (i mod 12))) [0..<17280]"
proof -
  have inner: "concat (map (\<lambda>m. map (\<lambda>s. hhmmss_name h m s) (range_step 0 60 5)) [0..<60])
      = map (\<lambda>j. hhmmss_name h (j div 12) (5 * (j mod 12))) [0..<720]" for h
  proof -
    have "map (\<lambda>s. hhmmss_name h m s) (range_step 0 60 5)
        = map (\<lambda>k. hhmmss_name h m (5 * k)) [0..<12]" for m
      unfolding range_step_0_60_5 map_map comp_def ..
    moreover have "(60::nat) * 12 = 720" by simp
    ultimately show ?thesis
      using concat_map_upt[of "\<lambda>m k. hhmmss_name h m (5 * k)" 12 60] by (simp only:)
  qed
  have a0: "i mod 720 = 12 * (i div 12 mod 60) + i mod 12" for i :: nat
    using mod_mult2_eq[of i 12 60] by simp
  have a1: "i mod 720 div 12 = i div 12 mod 60" for i :: nat
    unfolding a0 by simp
  have a2: "i mod 720 mod 12 = i mod 12" for i :: nat
    unfolding a0 by simp
  have "(24::nat) * 720 = 17280" by simp
  then show ?thesis
    unfolding fallback_names_def inner
    using concat_map_upt[of "\<lambda>h j. hhmmss_name h (j div 12) (5 * (j mod 12))" 720 24]
    by (simp only: a1 a2)
qed

lemma two_digits: "n < 100 \<Longrightarrow> n div 10 < (10::nat) \<and> n mod 10 < 10 \<and> 10 * (n div 10) + n mod 10 = n"
  by auto

lemma hhmmss_name_decode:
  assumes "h < 100" "m < 100" "s < 100"
  shows "matches_pattern (hhmmss_name h m s)"
    and "hour_of (hhmmss_name h m s) = h"
    and "minute_of (hhmmss_name h m s) = m"
    and "second_of (hhmmss_name h m s) = s"
  using assms two_digits[of h] two_digits[of m] two_digits[of s]
  by (simp_all add: hhmmss_name_def fmt_02d_digits matches_pattern_def hour_of_def
        minute_of_def second_of_def num2_def is_digit_digit_char digit_val_digit_char)

lemma five_second_boundary:
  "5 * (i mod 12) \<in> {0, 5, 10, 15, 20, 25, 30, 35, 40, 45, 50, 55 :: nat}"
proof -
  have "i mod 12 < 12" by simp
  then have "i mod 12 = 0 \<or> i mod 12 = 1 \<or> i mod 12 = 2 \<or> i mod 12 = 3 \<or> i mod 12 = 4 \<or>
      i mod 12 = 5 \<or> i mod 12 = 6 \<or> i mod 12 = 7 \<or> i mod 12 = 8 \<or> i mod 12 = 9 \<or>
      i mod 12 = 10 \<or> i mod 12 = 11"
    by arith
  then show ?thesis by auto
qed

lemma time_of_index:
  "3600 * (i div 720) + 60 * (i div 12 mod 60) + 5 * (i mod 12) = 5 * (i::nat)"
proof -
  have a0: "i mod 720 = 12 * (i div 12 mod 60) + i mod 12"
    using mod_mult2_eq[of i 12 60] by simp
  have "i = 720 * (i div 720) + i mod 720" by simp
  also have "\<dots> = 720 * (i div 720) + 12 * (i div 12 mod 60) + i mod 12"
    unfolding a0 by simp
  finally have "5 * i = 5 * (720 * (i div 720) + 12 * (i div 12 mod 60) + i mod 12)" by simp
  then show ?thesis by simp
qed

lemma fallback_names_length: "length fallback_names = 17280"
  unfolding fallback_names_indexed by (simp only: length_map length_upt diff_zero)

lemma fallback_names_nth:
  assumes "i < 17280"
  shows "fallback_names ! i = hhmmss_name (i div 720) (i div 12 mod 60) (5 * (i mod 12))"
proof -
  have "i < length [0..<17280::nat]" using assms by (simp only: length_upt diff_zero)
  moreover have "[0..<17280::nat] ! i = i" using assms by (simp only: nth_upt add_0)
  ultimately show ?thesis
    unfolding fallback_names_indexed by (simp only: nth_map)
qed

lemma fallback_names_entry:
  assumes "i < 17280"
  shows "matches_pattern (fallback_names ! i)"
    and "hour_of (fallback_names ! i) = i div 720"
    and "minute_of (fallback_names ! i) = i div 12 mod 60"
    and "second_of (fallback_names ! i) = 5 * (i mod 12)"
    and "seconds_of_day (fallback_names ! i) = 5 * i"
proof -
  have b: "i div 720 < 100" "i div 12 mod 60 < 100" "5 * (i mod 12) < 100"
    using assms by auto
  note d = hhmmss_name_decode[OF b]
  show "matches_pattern (fallback_names ! i)" "hour_of (fallback_names ! i) = i div 720"
    "minute_of (fallback_names ! i) = i div 12 mod 60"
    "second_of (fallback_names ! i) = 5 * (i mod 12)"
    unfolding fallback_names_nth[OF assms] using d by simp_all
  then show "seconds_of_day (fallback_names ! i) = 5 * i"
    unfolding seconds_of_day_def using time_of_index[of i] by simp
qed

text \<open>
  Claim C1. The fallback generator produces exactly 17280 names. The name at position
  \<open>i\<close> is the one of hour \<open>i div 720\<close>, minute \<open>i div 12 mod 60\<close> and second
  \<open>5 * (i mod 12)\<close>, that is, of the time of day \<open>5 * i\<close> seconds: one name for each
  5-second boundary of the day, in strictly ascending order of the time of day. Every
  name is six digits followed by \<^verbatim>\<open>Z.json.gz\<close>, with the hour below 24, the minute below 60
  and the second one of 0, 5, ..., 55.
\<close>

theorem fallback_names_enumeration:
  "length fallback_names = 17280 \<and>
   fallback_names =
     map (\<lambda>i. hhmmss_name (i div 720) (i div 12 mod 60) (5 * (i mod 12))) [0..<17280] \<and>
   (\<forall>n \<in> set fallback_names.
      matches_pattern n \<and> hour_of n < 24 \<and> minute_of n < 60 \<and>
      second_of n \<in> {0, 5, 10, 15, 20, 25, 30, 35, 40, 45, 50, 55}) \<and>
   (\<forall>i < 17280. seconds_of_day (fallback_names ! i) = 5 * i) \<and>
   sorted_wrt (\<lambda>a b. seconds_of_day a < seconds_of_day b) fallback_names"
proof (intro conjI)
  show "length fallback_names = 17280" by (rule fallback_names_length)
  show "fallback_names =
     map (\<lambda>i. hhmmss_name (i div 720) (i div 12 mod 60) (5 * (i mod 12))) [0..<17280]"
    by (rule fallback_names_indexed)
  show "\<forall>n \<in> set fallback_names.
      matches_pattern n \<and> hour_of n < 24 \<and> minute_of n < 60 \<and>
      second_of n \<in> {0, 5, 10, 15, 20, 25, 30, 35, 40, 45, 50, 55}"
  proof
    fix n assume "n \<in> set fallback_names"
    then obtain i where i: "i < 17280" and n: "n = fallback_names ! i"
      unfolding in_set_conv_nth fallback_names_length by blast
    have "i div 720 < 24" using i by simp
    moreover have "i div 12 mod 60 < 60" by simp
    ultimately show "matches_pattern n \<and> hour_of n < 24 \<and> minute_of n < 60 \<and>
      second_of n \<in> {0, 5, 10, 15, 20, 25, 30, 35, 40, 45, 50, 55}"
      unfolding n using fallback_names_entry(1-4)[OF i] five_second_boundary[of i]
      by (simp only:)
  qed
  show "\<forall>i < 17280. seconds_of_day (fallback_names ! i) = 5 * i"
    using fallback_names_entry(5) by blast
  show "sorted_wrt (\<lambda>a b. seconds_of_day a < seconds_of_day b) fallback_names"
    unfolding sorted_wrt_iff_nth_less fallback_names_length
  proof (intro allI impI)
    fix i j :: nat assume "i < j" "j < 17280"
    then show "seconds_of_day (fallback_names ! i) < seconds_of_day (fallback_names ! j)"
      using fallback_names_entry(5)[of i] fallback_names_entry(5)[of j] by simp
  qed
qed

text \<open>The last name of the day, \<^verbatim>\<open>235955Z.json.gz\<close>, at position 17279.\<close>

theorem fallback_names_enumeration_witness:
  "''235955Z.json.gz'' \<in> set fallback_names \<and>
   matches_pattern ''235955Z.json.gz'' \<and>
   hour_of ''235955Z.json.gz'' = 23 \<and> minute_of ''235955Z.json.gz'' = 59 \<and>
   second_of ''235955Z.json.gz'' = 55 \<and>
   fallback_names ! 17279 = ''235955Z.json.gz'' \<and>
   seconds_of_day (fallback_names ! 17279) = 86395"
proof -
  note t = fallback_names_enumeration
  have len: "length fallback_names = 17280" using t by blast
  have "fallback_names ! 17279 = hhmmss_name (17279 div 720) (17279 div 12 mod 60) (5 * (17279 mod 12))"
    using fallback_names_nth[of 17279] by simp
  also have "\<dots> = ''235955Z.json.gz''"
    by (simp add: hhmmss_name_def fmt_02d_digits digit_char_def)
  finally have last: "fallback_names ! 17279 = ''235955Z.json.gz''" .
  have mem: "''235955Z.json.gz'' \<in> set fallback_names"
    using nth_mem[of 17279 fallback_names] len last by simp
  have "17279 < (17280::nat)" by simp
  with t have "seconds_of_day (fallback_names ! 17279) = 5 * 17279" by blast
  moreover have "matches_pattern ''235955Z.json.gz''"
    using t mem by blast
  ultimately show ?thesis using mem last
    by (simp add: hour_of_def minute_of_def second_of_def num2_def digit_val_def)
qed

section \<open>Strings and paths\<close>

lemma str_contains_sublist: "str_contains sub s \<longleftrightarrow> sublist sub s"
  by (induction s) (simp_all add: sublist_Cons_right)

lemma split_sep_nonempty: "split_sep c s \<noteq> []"
  by (induction s) (simp_all split: list.splits)

lemma split_sep_no_sep: "c \<notin> set f \<Longrightarrow> split_sep c f = [f]"
  by (induction f) auto

lemma split_sep_append: "split_sep c (p @ c # f) = split_sep c p @ split_sep c f"
  by (induction p) (simp_all add: split_sep_nonempty split: list.splits)

lemma basename_no_slash: "CHR ''/'' \<notin> set (basename p)"
proof -
  have "\<forall>x \<in> set (takeWhile (\<lambda>x. x \<noteq> CHR ''/'') (rev p)). x \<noteq> CHR ''/''"
    using set_takeWhileD by fastforce
  then show ?thesis unfolding basename_def by auto
qed

lemma basename_decompose:
  "\<exists>d. p = d @ basename p \<and> (d = [] \<or> last d = CHR ''/'')"
proof -
  let ?P = "\<lambda>x. x \<noteq> CHR ''/''"
  let ?d = "rev (dropWhile ?P (rev p))"
  have "rev (takeWhile ?P (rev p) @ dropWhile ?P (rev p)) = rev (rev p)"
    by (simp only: takeWhile_dropWhile_id)
  then have eq: "p = ?d @ basename p"
    unfolding basename_def by (simp only: rev_append rev_rev_ident)
  have "?d = [] \<or> last ?d = CHR ''/''"
  proof (cases "dropWhile ?P (rev p)")
    case Nil
    then show ?thesis by simp
  next
    case (Cons x xs)
    then have "\<not> ?P x" using hd_dropWhile[of ?P "rev p"] by force
    with Cons show ?thesis by simp
  qed
  with eq show ?thesis by blast
qed

lemma last_segment_unique:
  assumes "p = d @ f" "d = [] \<or> last d = c" "c \<notin> set f"
  shows "last (split_sep c p) = f"
proof (cases "d = []")
  case True
  with assms show ?thesis by (simp add: split_sep_no_sep)
next
  case False
  with assms(2) obtain d' where "d = d' @ [c]"
    by (metis append_butlast_last_id)
  with assms(1) have "p = d' @ c # f" by simp
  then show ?thesis using assms(3)
    by (simp add: split_sep_append split_sep_no_sep)
qed

lemma s3_filename_basename: "s3_filename filename = basename filename"
proof -
  obtain d where "filename = d @ basename filename" "d = [] \<or> last d = CHR ''/''"
    using basename_decompose by blast
  then show ?thesis
    unfolding s3_filename_def using basename_no_slash last_segment_unique by metis
qed

lemma basename_empty_iff: "basename p = [] \<longleftrightarrow> p = [] \<or> last p = CHR ''/''"
proof (cases "rev p")
  case Nil
  then show ?thesis by (simp add: basename_def)
next
  case (Cons x xs)
  then have "p = rev xs @ [x]" by (metis rev.simps(2) rev_rev_ident)
  then show ?thesis by (simp add: basename_def)
qed

lemma prepared_dir_eq: "prepared_dir = ''data/prepared/day=20231101''"
  by (simp add: prepared_dir_def path_join_def join_step_def startswith_def)

lemma local_file_path:
  "path_join prepared_dir [basename k] = ''data/prepared/day=20231101/'' @ basename k"
proof -
  have "\<not> startswith (basename k) ''/''"
    using basename_no_slash[of k] by (cases "basename k") (auto simp: startswith_def)
  then show ?thesis
    by (simp add: prepared_dir_eq path_join_def join_step_def)
qed

lemma s3_key_eq: "s3_key filename = ''raw/day=20231101/'' @ basename filename"
  by (simp add: s3_key_def s3_prefix_path_def s3_filename_basename)

lemma slice_to_nonneg:
  "0 \<le> N \<Longrightarrow> slice_to links N = take (min (nat N) (length links)) links"
  by (simp add: slice_to_def min_def)

lemma slice_to_negative:
  "N < 0 \<Longrightarrow> slice_to links N = take (length links - nat (- N)) links"
  by (simp add: slice_to_def) (metis nat_diff_distrib' nat_int of_nat_0_le_iff diff_conv_add_uminus
        neg_0_le_iff_le less_imp_le minus_minus)

section \<open>The download loop\<close>

text \<open>
  One iteration of the loop, in its three cases, and what the whole loop does to the
  outcome, the trace, the counter and the bucket.
\<close>

lemma requests_append: "requests (es @ fs) = requests es @ requests fs"
  by (induction es rule: requests.induct) simp_all

lemma uploads_append: "uploads (es @ fs) = uploads es @ uploads fs"
  by (induction es rule: uploads.induct) simp_all

lemma failures_append: "failures (es @ fs) = failures es @ failures fs"
  by (induction es rule: failures.induct) simp_all

lemma download_loop_raise:
  assumes "http_get env (file_url base n) = Inl e"
  shows "download_loop env base (n # rest) st
       = (Inl e, st\<lparr>trace := trace st @ [Http_Get (file_url base n)]\<rparr>)"
  using assms by (simp add: Let_def)

lemma download_loop_ok:
  assumes "http_get env (file_url base n) = Inr r" "status_code r = 200"
  shows "download_loop env base (n # rest) st
       = download_loop env base rest
           (st\<lparr>bucket := (bucket st)(s3_key n \<mapsto> raw r),
               downloaded_count := downloaded_count st + 1,
               trace := trace st @ [Http_Get (file_url base n), Upload (s3_key n)]\<rparr>)"
  using assms by (simp add: Let_def)

lemma download_loop_skip:
  assumes "http_get env (file_url base n) = Inr r" "status_code r \<noteq> 200"
  shows "download_loop env base (n # rest) st
       = download_loop env base rest
           (st\<lparr>trace := trace st @
              [Http_Get (file_url base n), Failed (s3_filename n) (status_code r)]\<rparr>)"
  using assms by (simp add: Let_def)

lemmas loop_steps = download_loop_raise download_loop_ok download_loop_skip

lemma step_cases:
  obtains (raise) e where "http_get env (file_url base n) = Inl e"
    "raises env base n" "\<not> fetched_ok env base n"
  | (ok) r where "http_get env (file_url base n) = Inr r" "status_code r = 200"
    "\<not> raises env base n" "fetched_ok env base n"
  | (skip) r where "http_get env (file_url base n) = Inr r" "status_code r \<noteq> 200"
    "\<not> raises env base n" "\<not> fetched_ok env base n"
proof (cases "http_get env (file_url base n)")
  case (Inl e)
  then show ?thesis using raise by (simp add: raises_def fetched_ok_def)
next
  case (Inr r)
  then show ?thesis using ok skip by (cases "status_code r = 200") (simp_all add: raises_def fetched_ok_def)
qed

lemma step_skipped:
  "http_get env (file_url base n) = Inl e \<Longrightarrow> skipped env base n = None"
  "http_get env (file_url base n) = Inr r \<Longrightarrow> status_code r = 200 \<Longrightarrow> skipped env base n = None"
  "http_get env (file_url base n) = Inr r \<Longrightarrow> status_code r \<noteq> 200
     \<Longrightarrow> skipped env base n = Some (s3_filename n, status_code r)"
  by (simp_all add: skipped_def)

lemma attempted_no_raise:
  "\<forall>n \<in> set names. \<not> raises env base n \<Longrightarrow> attempted env base names = names"
  by (induction names) simp_all

lemma attempted_prefix: "prefix (attempted env base names) names"
  by (induction names) simp_all

lemma attempted_takeWhile:
  "attempted env base names
     = takeWhile (\<lambda>n. \<not> raises env base n) names @
       take 1 (dropWhile (\<lambda>n. \<not> raises env base n) names)"
  by (induction names) simp_all

lemma download_loop_outcome:
  "fst (download_loop env base names st) = Inr () \<longleftrightarrow> (\<forall>n \<in> set names. \<not> raises env base n)"
proof (induction names arbitrary: st)
  case Nil
  show ?case by simp
next
  case (Cons n names)
  show ?case
    by (cases rule: step_cases[of env base n])
       (simp_all add: loop_steps Cons.IH del: download_loop.simps)
qed

lemma download_loop_raised:
  "fst (download_loop env base names st) = Inl RequestException
     \<longleftrightarrow> (\<exists>n \<in> set names. raises env base n)"
proof -
  have "fst (download_loop env base names st) \<noteq> Inr ()
      \<longleftrightarrow> fst (download_loop env base names st) = Inl RequestException"
    by (cases "fst (download_loop env base names st)") (auto intro: exn.exhaust)
  then show ?thesis using download_loop_outcome[of env base names st] by blast
qed

lemma download_loop_requests:
  "requests (trace (snd (download_loop env base names st)))
     = requests (trace st) @ map (file_url base) (attempted env base names)"
proof (induction names arbitrary: st)
  case Nil
  show ?case by simp
next
  case (Cons n names)
  show ?case
    by (cases rule: step_cases[of env base n])
       (simp_all add: loop_steps Cons.IH requests_append del: download_loop.simps)
qed

lemma download_loop_uploads:
  "uploads (trace (snd (download_loop env base names st)))
     = uploads (trace st) @ map s3_key (filter (fetched_ok env base) (attempted env base names))"
proof (induction names arbitrary: st)
  case Nil
  show ?case by simp
next
  case (Cons n names)
  show ?case
    by (cases rule: step_cases[of env base n])
       (simp_all add: loop_steps Cons.IH uploads_append del: download_loop.simps)
qed

lemma download_loop_failures:
  "failures (trace (snd (download_loop env base names st)))
     = failures (trace st) @ List.map_filter (skipped env base) (attempted env base names)"
proof (induction names arbitrary: st)
  case Nil
  show ?case by simp
next
  case (Cons n names)
  show ?case
    by (cases rule: step_cases[of env base n])
       (simp_all add: loop_steps Cons.IH failures_append step_skipped
          del: download_loop.simps)
qed

lemma download_loop_count:
  "downloaded_count (snd (download_loop env base names st))
     = downloaded_count st + length (filter (fetched_ok env base) (attempted env base names))"
proof (induction names arbitrary: st)
  case Nil
  show ?case by simp
next
  case (Cons n names)
  show ?case
    by (cases rule: step_cases[of env base n])
       (simp_all add: loop_steps Cons.IH del: download_loop.simps)
qed

lemma map_upd_add: "m(k \<mapsto> v) ++ d = m ++ ([k \<mapsto> v] ++ d)"
  by (simp add: map_add_def fun_eq_iff split: option.splits)

lemma download_loop_bucket:
  "bucket (snd (download_loop env base names st)) = bucket st ++ stored env base names"
proof (induction names arbitrary: st)
  case Nil
  show ?case by simp
next
  case (Cons n names)
  show ?case
  proof (cases rule: step_cases[of env base n])
    case (raise e)
    then show ?thesis by (simp add: download_loop_raise del: download_loop.simps)
  next
    case (ok r)
    have "bucket (snd (download_loop env base (n # names) st))
        = (bucket st)(s3_key n \<mapsto> raw r) ++ stored env base names"
      unfolding download_loop_ok[OF ok(1,2)] Cons.IH by simp
    also have "\<dots> = bucket st ++ ([s3_key n \<mapsto> raw r] ++ stored env base names)"
      by (rule map_upd_add)
    finally show ?thesis using ok(1,2) by simp
  next
    case (skip r)
    have "bucket (snd (download_loop env base (n # names) st))
        = bucket st ++ stored env base names"
      unfolding download_loop_skip[OF skip(1,2)] Cons.IH by simp
    then show ?thesis using skip(1,2) by simp
  qed
qed

lemma dom_stored:
  "dom (stored env base names)
     = s3_key ` {n \<in> set (attempted env base names). fetched_ok env base n}"
proof (induction names)
  case Nil
  show ?case by simp
next
  case (Cons n names)
  show ?case
  proof (cases rule: step_cases[of env base n])
    case (raise e)
    then show ?thesis by simp
  next
    case (ok r)
    then have "{x \<in> set (attempted env base (n # names)). fetched_ok env base x}
        = insert n {x \<in> set (attempted env base names). fetched_ok env base x}"
      by auto
    with ok Cons.IH show ?thesis by simp
  next
    case (skip r)
    then have "{x \<in> set (attempted env base (n # names)). fetched_ok env base x}
        = {x \<in> set (attempted env base names). fetched_ok env base x}"
      by auto
    with skip Cons.IH show ?thesis by simp
  qed
qed

lemma download_loop_fallback_event:
  "Fallback_Engaged \<in> set (trace (snd (download_loop env base names st)))
     \<longleftrightarrow> Fallback_Engaged \<in> set (trace st)"
proof (induction names arbitrary: st)
  case Nil
  show ?case by simp
next
  case (Cons n names)
  show ?case
    by (cases rule: step_cases[of env base n])
       (simp_all add: loop_steps Cons.IH del: download_loop.simps)
qed

lemma map_add_twice: "(m ++ d) ++ d = m ++ d"
  by (simp add: map_add_def fun_eq_iff split: option.splits)

section \<open>The endpoint as a whole\<close>

lemma download_data_listing_raises:
  "http_get env (base_url env) = Inl e \<Longrightarrow>
   download_data env file_limit objs
     = (Inl e, \<lparr>bucket = objs, downloaded_count = 0, trace = [Http_Get (base_url env)]\<rparr>)"
  by (simp add: download_data_def)

lemma download_data_run:
  assumes "http_get env (base_url env) = Inr response"
  shows "snd (download_data env file_limit objs)
       = snd (download_loop env (base_url env)
               (slice_to (all_links (find_all_a env (text_field response))) file_limit)
               \<lparr>bucket = objs, downloaded_count = 0,
                trace = (if page_links (find_all_a env (text_field response)) = []
                         then [Http_Get (base_url env), Fallback_Engaged]
                         else [Http_Get (base_url env)])\<rparr>)"
  using assms
  by (simp add: download_data_def Let_def split: prod.splits sum.splits del: download_loop.simps)

lemma download_data_outcome:
  assumes "http_get env (base_url env) = Inr response"
  shows "fst (download_data env file_limit objs) = Inr ''OK'' \<longleftrightarrow>
     fst (download_loop env (base_url env)
               (slice_to (all_links (find_all_a env (text_field response))) file_limit)
               \<lparr>bucket = objs, downloaded_count = 0,
                trace = (if page_links (find_all_a env (text_field response)) = []
                         then [Http_Get (base_url env), Fallback_Engaged]
                         else [Http_Get (base_url env)])\<rparr>) = Inr ()"
  using assms
  by (simp add: download_data_def Let_def split: prod.splits sum.splits del: download_loop.simps)

lemma download_data_bucket:
  "bucket (snd (download_data env file_limit objs))
     = objs ++ (case http_get env (base_url env) of
                  Inl e \<Rightarrow> Map.empty
                | Inr response \<Rightarrow>
                    stored env (base_url env)
                      (slice_to (all_links (find_all_a env (text_field response))) file_limit))"
proof (cases "http_get env (base_url env)")
  case (Inl e)
  then show ?thesis by (simp add: download_data_listing_raises)
next
  case (Inr response)
  then show ?thesis
    unfolding download_data_run[OF Inr] download_loop_bucket by simp
qed

lemma all_links_cases:
  "all_links anchors = (if page_links anchors = [] then fallback_names else page_links anchors)"
  by (simp add: all_links_def Let_def)

lemma two_links_base: "base_url (two_links_env get) = ''http://src/2023/11/01/''"
  by (simp add: base_url_def two_links_env_def rstrip_def)

lemma two_links_all: "all_links (find_all_a (two_links_env get) t) = [''a.json.gz'', ''b.json.gz'']"
  by (simp add: two_links_env_def all_links_def page_links_def)

lemma two_links_page: "page_links (find_all_a (two_links_env get) t) = [''a.json.gz'', ''b.json.gz'']"
  by (simp add: two_links_env_def page_links_def)

lemma two_links_get: "http_get (two_links_env get) = get"
  by (simp add: two_links_env_def)

lemma two_links_urls:
  "file_url ''http://src/2023/11/01/'' ''a.json.gz'' = ''http://src/2023/11/01/a.json.gz''"
  "file_url ''http://src/2023/11/01/'' ''b.json.gz'' = ''http://src/2023/11/01/b.json.gz''"
  by (simp_all add: file_url_def startswith_def)

section \<open>The page link extractor\<close>

lemma page_links_Nil: "page_links [] = []"
  by (simp add: page_links_def)

lemma page_links_Cons:
  "page_links (a # anchors)
     = (if qualifying a then the (a ''href'') # page_links anchors else page_links anchors)"
  by (cases "a ''href''") (auto simp: page_links_def qualifying_def str_contains_sublist)

lemma page_links_filter:
  "page_links anchors = map (\<lambda>a. the (a ''href'')) (filter qualifying anchors)"
  by (induction anchors) (simp_all add: page_links_Nil page_links_Cons)

lemma page_links_empty_iff: "page_links anchors = [] \<longleftrightarrow> (\<forall>a \<in> set anchors. \<not> qualifying a)"
  by (simp add: page_links_filter filter_empty_conv)

text \<open>
  Claim C8. For every page, the extractor returns the hyperlink attribute value of every
  anchor whose value contains the file-type marker, in document order and with duplicates
  kept: the result is the list of the qualifying anchors, each replaced by its value. A
  page without a qualifying link yields the empty list, and only such a page does.
\<close>

theorem page_links_extracts:
  "page_links anchors = map (\<lambda>a. the (a ''href'')) (filter qualifying anchors) \<and>
   (page_links anchors = [] \<longleftrightarrow> (\<forall>a \<in> set anchors. \<not> qualifying a))"
  using page_links_filter page_links_empty_iff by blast

text \<open>
  A page with six anchors, three of them qualifying and two of these with the same value;
  and a page without a qualifying anchor.
\<close>

theorem page_links_extracts_witness:
  "page_links [[''href'' \<mapsto> ''b.json.gz''], Map.empty, [''href'' \<mapsto> ''index.html''],
               [''name'' \<mapsto> ''x.json''], [''href'' \<mapsto> ''a.json''], [''href'' \<mapsto> ''b.json.gz'']]
     = [''b.json.gz'', ''a.json'', ''b.json.gz''] \<and>
   page_links [[''href'' \<mapsto> ''index.html''], Map.empty] = []"
  using page_links_extracts[of "[[''href'' \<mapsto> ''b.json.gz''], Map.empty, [''href'' \<mapsto> ''index.html''],
               [''name'' \<mapsto> ''x.json''], [''href'' \<mapsto> ''a.json''], [''href'' \<mapsto> ''b.json.gz'']]"]
    page_links_extracts[of "[[''href'' \<mapsto> ''index.html''], Map.empty]"]
  by (simp add: qualifying_def str_contains_sublist[symmetric])

section \<open>Fallback exactly when the page has no link\<close>

text \<open>
  Claim C5. When the listing page has been retrieved: if it has a qualifying link, the
  candidate list before truncation is the extracted list and the fallback branch is not
  entered; if it has none, the candidate list before truncation is the whole output of the
  fallback generator and the fallback branch is entered. In both cases the candidates
  requested are those of this list, cut to the limit.
\<close>

theorem fallback_iff_no_links:
  assumes "http_get env (base_url env) = Inr response"
    and "anchors = find_all_a env (text_field response)"
  shows "((\<exists>a \<in> set anchors. qualifying a) \<longrightarrow>
            page_links anchors \<noteq> [] \<and> all_links anchors = page_links anchors \<and>
            Fallback_Engaged \<notin> set (trace (snd (download_data env file_limit objs)))) \<and>
         ((\<forall>a \<in> set anchors. \<not> qualifying a) \<longrightarrow>
            page_links anchors = [] \<and> all_links anchors = fallback_names \<and>
            Fallback_Engaged \<in> set (trace (snd (download_data env file_limit objs)))) \<and>
         requests (trace (snd (download_data env file_limit objs)))
           = base_url env #
             map (file_url (base_url env))
               (attempted env (base_url env) (slice_to (all_links anchors) file_limit))"
proof -
  note run = download_data_run[OF assms(1), of file_limit objs, folded assms(2)]
  have ev: "Fallback_Engaged \<in> set (trace (snd (download_data env file_limit objs)))
      \<longleftrightarrow> page_links anchors = []"
    unfolding run download_loop_fallback_event by simp
  have rq: "requests (trace (snd (download_data env file_limit objs)))
           = base_url env #
             map (file_url (base_url env))
               (attempted env (base_url env) (slice_to (all_links anchors) file_limit))"
    unfolding run download_loop_requests by simp
  show ?thesis
    using ev rq page_links_empty_iff[of anchors] all_links_cases[of anchors] by auto
qed

text \<open>
  The page with two links, and the page without a qualifying link (with limit 0).
\<close>

theorem fallback_iff_no_links_witness:
  "page_links (find_all_a (two_links_env serve_all) []) = [''a.json.gz'', ''b.json.gz''] \<and>
   all_links (find_all_a (two_links_env serve_all) []) = [''a.json.gz'', ''b.json.gz''] \<and>
   Fallback_Engaged \<notin> set (trace (snd (download_data (two_links_env serve_all) 1 Map.empty))) \<and>
   all_links (find_all_a no_links_env []) = fallback_names \<and>
   Fallback_Engaged \<in> set (trace (snd (download_data no_links_env 0 Map.empty)))"
proof -
  have g1: "http_get (two_links_env serve_all) (base_url (two_links_env serve_all)) = Inr ok_response"
    by (simp add: two_links_get serve_all_def)
  have g2: "http_get no_links_env (base_url no_links_env) = Inr ok_response"
    by (simp add: no_links_env_def serve_all_def)
  have tf: "text_field ok_response = []"
    by (simp add: ok_response_def)
  have q1: "\<exists>a \<in> set (find_all_a (two_links_env serve_all) []). qualifying a"
    by (simp add: two_links_env_def qualifying_def str_contains_sublist[symmetric])
  have q2: "\<forall>a \<in> set (find_all_a no_links_env []). \<not> qualifying a"
    by (simp add: no_links_env_def qualifying_def str_contains_sublist[symmetric])
  note t1 = fallback_iff_no_links[OF g1, of "find_all_a (two_links_env serve_all) []" 1 Map.empty,
      unfolded tf, OF refl, THEN conjunct1, THEN mp, OF q1]
  note t2 = fallback_iff_no_links[OF g2, of "find_all_a no_links_env []" 0 Map.empty,
      unfolded tf, OF refl, THEN conjunct2, THEN conjunct1, THEN mp, OF q2]
  show ?thesis using t1 t2 two_links_page[of serve_all "[]"] by simp
qed

section \<open>Truncation to the limit\<close>

text \<open>
  Claim C4, as the code has it. For a limit \<open>N \<ge> 0\<close>, once the listing page has been
  retrieved and has given a candidate list of length \<open>L\<close>, the endpoint runs over the
  first \<open>min N L\<close> candidates in their original order. After the request for the listing
  page it requests these candidates in order, up to and including the first one whose
  request raises. When no request raises it requests exactly these \<open>min N L\<close> candidates
  and returns \<^verbatim>\<open>"OK"\<close>.
\<close>

theorem download_data_attempts:
  assumes "0 \<le> N"
    and "http_get env (base_url env) = Inr response"
    and "links = all_links (find_all_a env (text_field response))"
  shows "slice_to links N = take (min (nat N) (length links)) links \<and>
     requests (trace (snd (download_data env N objs)))
       = base_url env #
         map (file_url (base_url env))
           (attempted env (base_url env) (take (min (nat N) (length links)) links)) \<and>
     attempted env (base_url env) (take (min (nat N) (length links)) links)
       = takeWhile (\<lambda>n. \<not> raises env (base_url env) n) (take (min (nat N) (length links)) links) @
         take 1 (dropWhile (\<lambda>n. \<not> raises env (base_url env) n)
                   (take (min (nat N) (length links)) links)) \<and>
     ((\<forall>n \<in> set (take (min (nat N) (length links)) links). \<not> raises env (base_url env) n) \<longrightarrow>
        fst (download_data env N objs) = Inr ''OK'' \<and>
        requests (trace (snd (download_data env N objs)))
          = base_url env #
            map (file_url (base_url env)) (take (min (nat N) (length links)) links) \<and>
        length (requests (trace (snd (download_data env N objs))))
          = 1 + min (nat N) (length links))"
proof -
  let ?b = "base_url env"
  let ?t = "take (min (nat N) (length links)) links"
  note s = slice_to_nonneg[OF assms(1), of links]
  note run = download_data_run[OF assms(2), of N objs, folded assms(3), unfolded s]
  note out = download_data_outcome[OF assms(2), of N objs, folded assms(3), unfolded s]
  have rq: "requests (trace (snd (download_data env N objs)))
       = ?b # map (file_url ?b) (attempted env ?b ?t)"
    unfolding run download_loop_requests by simp
  have nr: "fst (download_data env N objs) = Inr ''OK'' \<and>
        requests (trace (snd (download_data env N objs))) = ?b # map (file_url ?b) ?t \<and>
        length (requests (trace (snd (download_data env N objs)))) = 1 + min (nat N) (length links)"
    if a: "\<forall>n \<in> set ?t. \<not> raises env ?b n"
  proof -
    have "fst (download_data env N objs) = Inr ''OK''"
      unfolding out download_loop_outcome using a .
    moreover have r: "requests (trace (snd (download_data env N objs))) = ?b # map (file_url ?b) ?t"
      unfolding rq attempted_no_raise[OF a] ..
    moreover have "length (requests (trace (snd (download_data env N objs))))
        = 1 + min (nat N) (length links)"
      unfolding r by simp
    ultimately show ?thesis by blast
  qed
  show ?thesis
    using s rq attempted_takeWhile[of env ?b ?t] nr by blast
qed

text \<open>
  The page with two links, the first answered with status 404, and the limits 1, 5 and 0.
\<close>

theorem download_data_attempts_witness:
  "requests (trace (snd (download_data (two_links_env serve_a_missing) 1 Map.empty)))
     = [''http://src/2023/11/01/'', ''http://src/2023/11/01/a.json.gz''] \<and>
   fst (download_data (two_links_env serve_a_missing) 5 Map.empty) = Inr ''OK'' \<and>
   requests (trace (snd (download_data (two_links_env serve_a_missing) 5 Map.empty)))
     = [''http://src/2023/11/01/'', ''http://src/2023/11/01/a.json.gz'',
        ''http://src/2023/11/01/b.json.gz''] \<and>
   requests (trace (snd (download_data (two_links_env serve_a_missing) 0 Map.empty)))
     = [''http://src/2023/11/01/'']"
proof -
  let ?env = "two_links_env serve_a_missing"
  let ?ls = "[''a.json.gz'', ''b.json.gz'']"
  have g: "http_get ?env (base_url ?env) = Inr ok_response"
    by (simp add: two_links_get two_links_base serve_a_missing_def)
  have l: "?ls = all_links (find_all_a ?env (text_field ok_response))"
    by (simp add: two_links_all)
  have n: "(0::int) \<le> 1" "(0::int) \<le> 5" "(0::int) \<le> 0" by simp_all
  have tk: "take (min (nat 1) (length ?ls)) ?ls = [''a.json.gz'']"
    "take (min (nat 5) (length ?ls)) ?ls = ?ls"
    "take (min (nat 0) (length ?ls)) ?ls = []"
    by simp_all
  have nr: "\<forall>n \<in> set ?ls. \<not> raises ?env (base_url ?env) n"
    by (simp add: raises_def two_links_get two_links_base two_links_urls serve_a_missing_def)
  then have nr1: "\<forall>n \<in> set [''a.json.gz'']. \<not> raises ?env (base_url ?env) n" by simp
  have nr0: "\<forall>n \<in> set ([] :: string list). \<not> raises ?env (base_url ?env) n" by simp
  note t1 = download_data_attempts[OF n(1) g l, of Map.empty, unfolded tk, THEN conjunct2,
      THEN conjunct2, THEN conjunct2, THEN mp, OF nr1]
  note t5 = download_data_attempts[OF n(2) g l, of Map.empty, unfolded tk, THEN conjunct2,
      THEN conjunct2, THEN conjunct2, THEN mp, OF nr]
  note t0 = download_data_attempts[OF n(3) g l, of Map.empty, unfolded tk, THEN conjunct2,
      THEN conjunct2, THEN conjunct2, THEN mp, OF nr0]
  show ?thesis
    using t1 t5 t0 by (simp add: two_links_base two_links_urls)
qed

text \<open>
  Claim C4 as stated fails when a request raises. With the two-link page, a limit of 5 and
  the request for \<^verbatim>\<open>a.json.gz\<close> raising, \<open>min N L\<close> is 2 and one candidate is
  requested.
\<close>

theorem download_data_raise_cuts_attempts:
  "all_links (find_all_a (two_links_env serve_a_raising) []) = [''a.json.gz'', ''b.json.gz''] \<and>
   min (nat 5) (length [''a.json.gz'', ''b.json.gz'']) = 2 \<and>
   requests (trace (snd (download_data (two_links_env serve_a_raising) 5 Map.empty)))
     = [''http://src/2023/11/01/'', ''http://src/2023/11/01/a.json.gz''] \<and>
   fst (download_data (two_links_env serve_a_raising) 5 Map.empty) = Inl RequestException"
  by (simp add: download_data_def two_links_base two_links_all two_links_page two_links_get
        two_links_urls slice_to_def Let_def serve_a_raising_def)

text \<open>
  Claim C3, at a negative limit. With the two-link page, both files served with status
  200 and \<^verbatim>\<open>file_limit = -1\<close>, the slice \<^verbatim>\<open>all_links[:-1]\<close> keeps the first link: one
  candidate is requested and one object is stored. With \<^verbatim>\<open>file_limit = 0\<close> nothing is
  requested and nothing is stored.
\<close>

theorem download_data_negative_limit:
  "fst (download_data (two_links_env serve_all) (- 1) Map.empty) = Inr ''OK'' \<and>
   requests (trace (snd (download_data (two_links_env serve_all) (- 1) Map.empty)))
     = [''http://src/2023/11/01/'', ''http://src/2023/11/01/a.json.gz''] \<and>
   downloaded_count (snd (download_data (two_links_env serve_all) (- 1) Map.empty)) = 1 \<and>
   dom (bucket (snd (download_data (two_links_env serve_all) (- 1) Map.empty)))
     = {''raw/day=20231101/a.json.gz''} \<and>
   requests (trace (snd (download_data (two_links_env serve_all) 0 Map.empty)))
     = [''http://src/2023/11/01/''] \<and>
   downloaded_count (snd (download_data (two_links_env serve_all) 0 Map.empty)) = 0"
  by (simp add: download_data_def two_links_base two_links_all two_links_page two_links_get
        two_links_urls slice_to_def Let_def serve_all_def ok_response_def s3_key_def
        s3_prefix_path_def s3_filename_def)

section \<open>Failures of single candidates\<close>

text \<open>
  Claim C2, as the code has it. A response with a status other than 200 is a skip: when
  no request raises, the loop ends normally, has requested every candidate in order, has
  reported each candidate with another status together with that status, has counted the
  candidates with status 200 and has added their keys, and no others, to the bucket. A
  request that raises is not caught: the loop ends with the exception, and the candidates
  requested are those up to the raising one.
\<close>

theorem download_loop_item_failures:
  "((\<forall>n \<in> set names. \<not> raises env base n) \<longrightarrow>
      fst (download_loop env base names st) = Inr () \<and>
      requests (trace (snd (download_loop env base names st)))
        = requests (trace st) @ map (file_url base) names \<and>
      failures (trace (snd (download_loop env base names st)))
        = failures (trace st) @ List.map_filter (skipped env base) names \<and>
      downloaded_count (snd (download_loop env base names st))
        = downloaded_count st + length (filter (fetched_ok env base) names) \<and>
      dom (bucket (snd (download_loop env base names st)))
        = dom (bucket st) \<union> s3_key ` {n \<in> set names. fetched_ok env base n}) \<and>
   ((\<exists>n \<in> set names. raises env base n) \<longrightarrow>
      fst (download_loop env base names st) = Inl RequestException \<and>
      requests (trace (snd (download_loop env base names st)))
        = requests (trace st) @ map (file_url base) (attempted env base names))"
proof (intro conjI impI)
  assume a: "\<forall>n \<in> set names. \<not> raises env base n"
  then show "fst (download_loop env base names st) = Inr ()"
    by (simp add: download_loop_outcome)
  show "requests (trace (snd (download_loop env base names st)))
        = requests (trace st) @ map (file_url base) names"
    using a by (simp add: download_loop_requests attempted_no_raise)
  show "failures (trace (snd (download_loop env base names st)))
        = failures (trace st) @ List.map_filter (skipped env base) names"
    using a by (simp add: download_loop_failures attempted_no_raise)
  show "downloaded_count (snd (download_loop env base names st))
        = downloaded_count st + length (filter (fetched_ok env base) names)"
    using a by (simp add: download_loop_count attempted_no_raise)
  show "dom (bucket (snd (download_loop env base names st)))
        = dom (bucket st) \<union> s3_key ` {n \<in> set names. fetched_ok env base n}"
    using a unfolding download_loop_bucket dom_map_add dom_stored
    by (simp add: attempted_no_raise Un_commute)
next
  assume "\<exists>n \<in> set names. raises env base n"
  then show "fst (download_loop env base names st) = Inl RequestException"
    by (simp add: download_loop_raised)
  show "requests (trace (snd (download_loop env base names st)))
        = requests (trace st) @ map (file_url base) (attempted env base names)"
    by (rule download_loop_requests)
qed

text \<open>
  The two candidates, with the first answered by status 404, and with the first raising.
\<close>

theorem download_loop_item_failures_witness:
  "fst (download_data (two_links_env serve_a_missing) 2 Map.empty) = Inr ''OK'' \<and>
   fst (download_loop (two_links_env serve_a_missing) ''http://src/2023/11/01/''
          [''a.json.gz'', ''b.json.gz'']
          \<lparr>bucket = Map.empty, downloaded_count = 0, trace = []\<rparr>) = Inr () \<and>
   requests (trace (snd (download_loop (two_links_env serve_a_missing) ''http://src/2023/11/01/''
          [''a.json.gz'', ''b.json.gz'']
          \<lparr>bucket = Map.empty, downloaded_count = 0, trace = []\<rparr>)))
     = [''http://src/2023/11/01/a.json.gz'', ''http://src/2023/11/01/b.json.gz''] \<and>
   failures (trace (snd (download_loop (two_links_env serve_a_missing) ''http://src/2023/11/01/''
          [''a.json.gz'', ''b.json.gz'']
          \<lparr>bucket = Map.empty, downloaded_count = 0, trace = []\<rparr>)))
     = [(''a.json.gz'', 404)] \<and>
   downloaded_count (snd (download_loop (two_links_env serve_a_missing) ''http://src/2023/11/01/''
          [''a.json.gz'', ''b.json.gz'']
          \<lparr>bucket = Map.empty, downloaded_count = 0, trace = []\<rparr>)) = 1 \<and>
   fst (download_loop (two_links_env serve_a_raising) ''http://src/2023/11/01/''
          [''a.json.gz'', ''b.json.gz'']
          \<lparr>bucket = Map.empty, downloaded_count = 0, trace = []\<rparr>) = Inl RequestException"
proof -
  let ?st = "\<lparr>bucket = Map.empty, downloaded_count = 0, trace = []\<rparr> :: unit dl_state"
  let ?b = "''http://src/2023/11/01/''"
  let ?ns = "[''a.json.gz'', ''b.json.gz'']"
  have nr: "\<forall>n \<in> set ?ns. \<not> raises (two_links_env serve_a_missing) ?b n"
    by (simp add: raises_def two_links_get two_links_urls serve_a_missing_def)
  have r: "\<exists>n \<in> set ?ns. raises (two_links_env serve_a_raising) ?b n"
    by (simp add: raises_def two_links_get two_links_urls serve_a_raising_def)
  have sk: "List.map_filter (skipped (two_links_env serve_a_missing) ?b) ?ns = [(''a.json.gz'', 404)]"
    by (simp add: skipped_def two_links_get two_links_urls
          serve_a_missing_def not_found_def ok_response_def s3_filename_def)
  have ok: "filter (fetched_ok (two_links_env serve_a_missing) ?b) ?ns = [''b.json.gz'']"
    by (simp add: fetched_ok_def two_links_get two_links_urls
          serve_a_missing_def not_found_def ok_response_def)
  have dd: "fst (download_data (two_links_env serve_a_missing) 2 Map.empty) = Inr ''OK''"
    by (simp add: download_data_def two_links_base two_links_all two_links_page two_links_get
        two_links_urls slice_to_def Let_def serve_a_missing_def not_found_def ok_response_def)
  note t1 = download_loop_item_failures[of ?ns "two_links_env serve_a_missing" ?b ?st,
      THEN conjunct1, THEN mp, OF nr]
  note t2 = download_loop_item_failures[of ?ns "two_links_env serve_a_raising" ?b ?st,
      THEN conjunct2, THEN mp, OF r]
  have m: "map (file_url ?b) ?ns
      = [''http://src/2023/11/01/a.json.gz'', ''http://src/2023/11/01/b.json.gz'']"
    by (simp add: two_links_urls)
  show ?thesis
    using t1 t2 dd unfolding sk ok m by (simp del: download_loop.simps)
qed

text \<open>
  Claim C2 as stated fails when a request raises. With the two-link page, a limit of 2
  and the request for \<^verbatim>\<open>a.json.gz\<close> raising, the endpoint ends with the exception;
  \<^verbatim>\<open>b.json.gz\<close>, which the source would have served, is never requested, and nothing is
  stored.
\<close>

theorem download_data_exception_aborts:
  "fst (download_data (two_links_env serve_a_raising) 2 Map.empty) = Inl RequestException \<and>
   requests (trace (snd (download_data (two_links_env serve_a_raising) 2 Map.empty)))
     = [''http://src/2023/11/01/'', ''http://src/2023/11/01/a.json.gz''] \<and>
   bucket (snd (download_data (two_links_env serve_a_raising) 2 Map.empty)) = Map.empty \<and>
   serve_a_raising ''http://src/2023/11/01/b.json.gz'' = Inr ok_response"
  by (simp add: download_data_def two_links_base two_links_all two_links_page two_links_get
        two_links_urls slice_to_def Let_def serve_a_raising_def)

section \<open>The key of a stored object\<close>

text \<open>
  Claim C6. The key of a candidate is \<^verbatim>\<open>raw/day=20231101/\<close> followed by the final
  path segment of its name: the part after the last slash, which has no slash in it. A
  candidate answered with status 200 has its body stored under this key and the counter
  raised by one, and the loop goes on with the remaining candidates. Over the whole loop,
  the counter rises by the number of candidates answered with status 200, each is
  uploaded once, and the keys added to the bucket are theirs.
\<close>

theorem success_stored_under_name_key:
  "s3_key filename = ''raw/day=20231101/'' @ basename filename \<and>
   CHR ''/'' \<notin> set (basename filename) \<and>
   (\<exists>d. filename = d @ basename filename \<and> (d = [] \<or> last d = CHR ''/'')) \<and>
   (\<forall>r. http_get env (file_url base filename) = Inr r \<and> status_code r = 200 \<longrightarrow>
      download_loop env base (filename # rest) st
        = download_loop env base rest
            (st\<lparr>bucket := (bucket st)(''raw/day=20231101/'' @ basename filename \<mapsto> raw r),
                downloaded_count := downloaded_count st + 1,
                trace := trace st @ [Http_Get (file_url base filename),
                                     Upload (''raw/day=20231101/'' @ basename filename)]\<rparr>)) \<and>
   downloaded_count (snd (download_loop env base names st))
     = downloaded_count st + length (filter (fetched_ok env base) (attempted env base names)) \<and>
   uploads (trace (snd (download_loop env base names st)))
     = uploads (trace st) @
       map (\<lambda>n. ''raw/day=20231101/'' @ basename n)
           (filter (fetched_ok env base) (attempted env base names)) \<and>
   dom (bucket (snd (download_loop env base names st)))
     = dom (bucket st) \<union>
       (\<lambda>n. ''raw/day=20231101/'' @ basename n) `
         {n \<in> set (attempted env base names). fetched_ok env base n}"
proof -
  have step: "\<forall>r. http_get env (file_url base filename) = Inr r \<and> status_code r = 200 \<longrightarrow>
      download_loop env base (filename # rest) st
        = download_loop env base rest
            (st\<lparr>bucket := (bucket st)(''raw/day=20231101/'' @ basename filename \<mapsto> raw r),
                downloaded_count := downloaded_count st + 1,
                trace := trace st @ [Http_Get (file_url base filename),
                                     Upload (''raw/day=20231101/'' @ basename filename)]\<rparr>)"
    using download_loop_ok[of env base filename _ rest st] unfolding s3_key_eq by blast
  have keys: "s3_key = (\<lambda>n. ''raw/day=20231101/'' @ basename n)"
    by (rule ext) (rule s3_key_eq)
  have d: "dom (bucket (snd (download_loop env base names st)))
     = dom (bucket st) \<union>
       s3_key ` {n \<in> set (attempted env base names). fetched_ok env base n}"
    unfolding download_loop_bucket dom_map_add dom_stored by blast
  show ?thesis
    using s3_key_eq[of filename] basename_no_slash[of filename] basename_decompose[of filename]
      step download_loop_count[of env base names st]
      download_loop_uploads[of env base names st, unfolded keys] d[unfolded keys]
    by blast
qed

text \<open>
  An absolute name and a relative one with the same final segment.
\<close>

theorem success_stored_under_name_key_witness:
  "s3_key ''http://host/2023/11/01/b.json.gz'' = ''raw/day=20231101/b.json.gz'' \<and>
   bucket (snd (download_loop (two_links_env serve_a_missing) ''http://src/2023/11/01/''
       [''b.json.gz'']
       \<lparr>bucket = Map.empty, downloaded_count = 0, trace = []\<rparr>)) ''raw/day=20231101/b.json.gz''
     = Some () \<and>
   downloaded_count (snd (download_loop (two_links_env serve_a_missing) ''http://src/2023/11/01/''
       [''b.json.gz'']
       \<lparr>bucket = Map.empty, downloaded_count = 0, trace = []\<rparr>)) = 1"
proof -
  let ?st = "\<lparr>bucket = Map.empty, downloaded_count = 0, trace = []\<rparr> :: unit dl_state"
  let ?b = "''http://src/2023/11/01/''"
  let ?env = "two_links_env serve_a_missing"
  have g: "http_get ?env (file_url ?b ''b.json.gz'') = Inr ok_response \<and> status_code ok_response = 200"
    by (simp add: two_links_get two_links_urls serve_a_missing_def ok_response_def)
  have bn: "basename ''http://host/2023/11/01/b.json.gz'' = ''b.json.gz''"
    "basename ''b.json.gz'' = ''b.json.gz''"
    by (simp_all add: basename_def)
  note k = success_stored_under_name_key[of "''http://host/2023/11/01/b.json.gz''" ?env ?b "[]" ?st "[]",
      THEN conjunct1, unfolded bn]
  note t = success_stored_under_name_key[of "''b.json.gz''" ?env ?b "[]" ?st "[]",
      THEN conjunct2, THEN conjunct2, THEN conjunct2, THEN conjunct1, THEN spec, THEN mp, OF g,
      unfolded bn]
  show ?thesis using k unfolding t by (simp add: ok_response_def)
qed

section \<open>Resolving the URL of a candidate\<close>

text \<open>
  Claim C7, at names that line 73 misjudges. The test is \<^verbatim>\<open>filename.startswith("http")\<close>.
  The relative name \<^verbatim>\<open>httpd.json.gz\<close> is not a full URL, yet it is used unmodified
  instead of being appended to the base URL; the full URL \<^verbatim>\<open>HTTP://host/A.json\<close> is
  appended to the base URL instead of being used unmodified. On a lower-case
  \<^verbatim>\<open>https://\<close> URL and on a generated name the test decides as the claim says.
\<close>

theorem file_url_misses_absolute:
  "\<not> is_full_url ''httpd.json.gz'' \<and>
   file_url ''http://src/2023/11/01/'' ''httpd.json.gz'' = ''httpd.json.gz'' \<and>
   file_url ''http://src/2023/11/01/'' ''httpd.json.gz'' \<noteq> ''http://src/2023/11/01/httpd.json.gz'' \<and>
   is_full_url ''HTTP://host/A.json'' \<and>
   file_url ''http://src/2023/11/01/'' ''HTTP://host/A.json''
     = ''http://src/2023/11/01/HTTP://host/A.json'' \<and>
   is_full_url ''https://host/a.json'' \<and>
   file_url ''http://src/2023/11/01/'' ''https://host/a.json'' = ''https://host/a.json'' \<and>
   \<not> is_full_url ''000000Z.json.gz'' \<and>
   file_url ''http://src/2023/11/01/'' ''000000Z.json.gz'' = ''http://src/2023/11/01/000000Z.json.gz''"
  by (simp add: file_url_def startswith_def is_full_url_def url_scheme_def is_alpha_def
        is_scheme_char_def)

section \<open>Running the download again\<close>

text \<open>
  Claim C9. A second pass of the loop over the same candidates, against the same remote
  source and starting from the bucket the first pass left, leaves the bucket as it was:
  the same keys, with the same bodies. The same holds for the endpoint as a whole.
\<close>

theorem rerun_same_bucket:
  "bucket (snd (download_loop env base links
       ((snd (download_loop env base links st))\<lparr>downloaded_count := 0, trace := []\<rparr>)))
     = bucket (snd (download_loop env base links st)) \<and>
   dom (bucket (snd (download_loop env base links
       ((snd (download_loop env base links st))\<lparr>downloaded_count := 0, trace := []\<rparr>))))
     = dom (bucket (snd (download_loop env base links st))) \<and>
   bucket (snd (download_data env file_limit (bucket (snd (download_data env file_limit objs)))))
     = bucket (snd (download_data env file_limit objs)) \<and>
   dom (bucket (snd (download_data env file_limit (bucket (snd (download_data env file_limit objs))))))
     = dom (bucket (snd (download_data env file_limit objs)))"
proof -
  have a: "bucket (snd (download_loop env base links
       ((snd (download_loop env base links st))\<lparr>downloaded_count := 0, trace := []\<rparr>)))
     = bucket (snd (download_loop env base links st))"
    by (simp add: download_loop_bucket map_add_twice del: download_loop.simps)
  have b: "bucket (snd (download_data env file_limit (bucket (snd (download_data env file_limit objs)))))
     = bucket (snd (download_data env file_limit objs))"
    unfolding download_data_bucket by (rule map_add_twice)
  show ?thesis using a b by simp
qed

section \<open>The prepare endpoint: what is downloaded\<close>

lemma prepare_objects_eq:
  "prepare_objects objs
     = map (\<lambda>k. (k, ''data/prepared/day=20231101/'' @ basename k))
           (filter (\<lambda>k. basename k \<noteq> []) objs)"
  by (induction objs) (simp_all add: local_file_path)

lemma prepare_pages_eq:
  "prepare_pages pages
     = map (\<lambda>k. (k, ''data/prepared/day=20231101/'' @ basename k))
           (filter (\<lambda>k. basename k \<noteq> []) (listed_keys pages))"
  by (induction pages rule: prepare_pages.induct)
     (simp_all add: listed_keys_def prepare_objects_eq)

text \<open>
  Claim C10. The endpoint returns \<^verbatim>\<open>"OK"\<close> and downloads, in the order of the
  listing, every listed key whose base name is not empty to
  \<^verbatim>\<open>data/prepared/day=20231101/\<close> followed by that base name; a key with an empty base
  name causes no download. The base name of a key is what follows its last slash, and it
  is empty exactly for the empty key and for a key that ends in a slash.
\<close>

theorem prepare_data_downloads:
  "prepare_data pages =
     (''OK'', map (\<lambda>k. (k, ''data/prepared/day=20231101/'' @ basename k))
                  (filter (\<lambda>k. basename k \<noteq> []) (listed_keys pages))) \<and>
   (\<forall>k. (basename k = [] \<longleftrightarrow> k = [] \<or> last k = CHR ''/'') \<and>
        CHR ''/'' \<notin> set (basename k) \<and>
        (\<exists>d. k = d @ basename k \<and> (d = [] \<or> last d = CHR ''/'')))"
  using prepare_pages_eq basename_empty_iff basename_no_slash basename_decompose
  by (simp add: prepare_data_def)

text \<open>
  Two pages and a page without contents; the first key ends in a slash.
\<close>

theorem prepare_data_downloads_witness:
  "prepare_data [Some [''raw/day=20231101/'', ''raw/day=20231101/000000Z.json.gz''], None,
                 Some [''raw/day=20231101/sub/000005Z.json.gz'']]
     = (''OK'', [(''raw/day=20231101/000000Z.json.gz'', ''data/prepared/day=20231101/000000Z.json.gz''),
                 (''raw/day=20231101/sub/000005Z.json.gz'', ''data/prepared/day=20231101/000005Z.json.gz'')])"
  using prepare_data_downloads[of "[Some [''raw/day=20231101/'', ''raw/day=20231101/000000Z.json.gz''], None,
                 Some [''raw/day=20231101/sub/000005Z.json.gz'']]"]
  by (simp add: listed_keys_def basename_def)

end
